theory Spec2Isabelle
  imports Main "HOL-Library.Word"
begin

section \<open>FrameProcessor (src/cpp/frame\_processor.cpp and its header)\<close>

text \<open>
  A \<open>WGPUDevice\<close> is an opaque handle (a pointer in the Emscripten headers). Only its
  comparison with \<open>nullptr\<close> is ever used, so it is a number and \<open>nullptr\<close> is 0.
  The other two private members, \<open>pipeline\<close> and \<open>outputBuffer\<close>, are handles of the
  same kind; the class initialises all three to \<open>nullptr\<close>.
\<close>

type_synonym WGPUDevice = nat

definition nullptr :: nat where
  "nullptr = 0"

text \<open>
  \<open>struct ProcessedFrame\<close>: \<open>int\<close> is a 32-bit machine integer; the values are only
  stored, never computed with. The member initialisers of the struct give the value
  of a freshly declared \<open>ProcessedFrame result;\<close>.
\<close>

record ProcessedFrame =
  processed :: bool
  width :: "32 word"
  height :: "32 word"
  error :: string

definition ProcessedFrame_default :: ProcessedFrame where
  "ProcessedFrame_default = \<lparr>processed = False, width = 0, height = 0, error = ''''\<rparr>"

record FrameProcessor =
  device :: WGPUDevice
  pipeline :: nat
  outputBuffer :: nat

definition FrameProcessor_new :: FrameProcessor where
  "FrameProcessor_new = \<lparr>device = nullptr, pipeline = nullptr, outputBuffer = nullptr\<rparr>"

text \<open>\<open>initializePipeline\<close> is a placeholder that prints a line and returns true.\<close>

definition initializePipeline :: "FrameProcessor \<Rightarrow> bool" where
  "initializePipeline this = True"

text \<open>
  \<open>initialize\<close> stores its argument in the member first and tests it afterwards, so a
  call with \<open>nullptr\<close> overwrites a device stored earlier. It returns the boolean and
  the updated object.
\<close>

definition initialize :: "FrameProcessor \<Rightarrow> WGPUDevice \<Rightarrow> bool \<times> FrameProcessor" where
  "initialize this dev =
     (let this' = this\<lparr>device := dev\<rparr>
      in if dev = nullptr then (False, this') else (initializePipeline this', this'))"

text \<open>
  \<open>processFrame\<close>: \<open>textureId\<close> is a \<open>uint32_t\<close>. The object is not changed. The
  line written to standard output is not part of the result.
\<close>

definition processFrame ::
  "FrameProcessor \<Rightarrow> 32 word \<Rightarrow> 32 word \<Rightarrow> 32 word \<Rightarrow> ProcessedFrame" where
  "processFrame this textureId w h =
     (let result = ProcessedFrame_default\<lparr>processed := False, error := ''''\<rparr>
      in if device this = nullptr
         then result\<lparr>error := ''WebGPU device not initialized''\<rparr>
         else result\<lparr>processed := True, width := w, height := h\<rparr>)"

text \<open>
  The life of one object: constructed, then \<open>initialize\<close> called with each device of a
  list in turn (the returned booleans are dropped here).
\<close>

definition initialize_all :: "WGPUDevice list \<Rightarrow> FrameProcessor" where
  "initialize_all devs = foldl (\<lambda>this dev. snd (initialize this dev)) FrameProcessor_new devs"

definition notInitialized :: ProcessedFrame where
  "notInitialized =
     \<lparr>processed = False, width = 0, height = 0, error = ''WebGPU device not initialized''\<rparr>"

definition processedOk :: "32 word \<Rightarrow> 32 word \<Rightarrow> ProcessedFrame" where
  "processedOk w h = \<lparr>processed = True, width = w, height = h, error = ''''\<rparr>"

subsection \<open>Properties of FrameProcessor\<close>

lemma device_initialize: "device (snd (initialize this dev)) = dev"
  by (simp add: initialize_def Let_def)

lemma device_initialize_all:
  "device (initialize_all devs) = (if devs = [] then nullptr else last devs)"
proof (induction devs rule: rev_induct)
  case Nil
  show ?case by (simp add: initialize_all_def FrameProcessor_new_def)
next
  case (snoc d ds)
  show ?case by (simp add: initialize_all_def device_initialize)
qed

lemma processFrame_by_device:
  "processFrame this t w h = (if device this = nullptr then notInitialized else processedOk w h)"
  by (simp add: processFrame_def ProcessedFrame_default_def notInitialized_def processedOk_def)

text \<open>
  C8, as the code has it: after any sequence of \<open>initialize\<close> calls, \<open>processFrame\<close>
  answers with processed=false and the error "WebGPU device not initialized" when
  \<open>initialize\<close> was never called or its most recent call passed a null device; in
  every other case it answers with processed=true, the width and height it was given
  and an empty error string. The texture id plays no part.
\<close>

theorem processFrame_after_initialize:
  "processFrame (initialize_all devs) textureId w h =
     (if devs = [] \<or> last devs = nullptr then notInitialized else processedOk w h)"
  by (simp add: processFrame_by_device device_initialize_all)

theorem processFrame_after_initialize_witness:
  "processFrame (initialize_all [0, 5]) 7 640 480 = processedOk 640 480 \<and>
   processFrame (initialize_all []) 7 640 480 = notInitialized"
  using processFrame_after_initialize [of "[0, 5]" 7 640 480]
        processFrame_after_initialize [of "[]" 7 640 480]
  by (simp add: nullptr_def)

text \<open>
  The claim as it is worded fails: here \<open>initialize\<close> has been called with the
  non-null device 5, and a later call with \<open>nullptr\<close> overwrote the member, so
  \<open>processFrame\<close> still reports the device as not initialised.
\<close>

theorem processFrame_counterexample:
  "(5::nat) \<in> set [5, 0] \<and> (5::nat) \<noteq> nullptr \<and>
   processFrame (initialize_all [5, 0]) 7 640 480 = notInitialized"
  by (simp add: processFrame_by_device device_initialize_all nullptr_def)

section \<open>WebGPUDetector (src/webgpu/detector.ts)\<close>













subsection \<open>Properties of WebGPUDetector.initialize\<close>







section \<open>CameraCapture (src/camera/capture.ts)\<close>

text \<open>
  The tracks of a stream and the video element are browser objects that other code
  can hold too (the stream is handed out by \<open>initialize\<close> and \<open>getStream\<close>, the
  element by \<open>createVideoElement\<close>), so they live in a store and are referred to by
  number. \<open>stop\<close> changes them through these references.
\<close>

datatype readyState = Live | Ended

text \<open>\<open>MediaTrackSettings\<close> is only passed on, so it is an opaque number.\<close>

type_synonym MediaTrackSettings = nat

record MediaStreamTrack =
  kind :: string
  label :: string
  readyState :: readyState
  settings :: MediaTrackSettings

text \<open>A \<open>MediaStream\<close> is the list of its tracks, by reference.\<close>

type_synonym MediaStream = "nat list"

record HTMLVideoElement =
  srcObject :: "MediaStream option"

record Store =
  tracks :: "nat \<Rightarrow> MediaStreamTrack option"
  videoElements :: "nat \<Rightarrow> HTMLVideoElement option"

text \<open>
  The four private members. \<open>context\<close> is a reserved word of Isabelle and is called
  \<open>canvasContext\<close>; canvas and context are references that \<open>stop\<close> only forgets.
\<close>

record CameraCapture =
  stream :: "MediaStream option"
  videoElement :: "nat option"
  canvas :: "nat option"
  canvasContext :: "nat option"

definition getStream :: "CameraCapture \<Rightarrow> MediaStream option" where
  "getStream this = stream this"

text \<open>\<open>stream.getVideoTracks()\<close>: the tracks of the stream whose kind is "video".\<close>

definition getVideoTracks :: "Store \<Rightarrow> MediaStream \<Rightarrow> nat list" where
  "getVideoTracks st s =
     filter (\<lambda>i. case tracks st i of None \<Rightarrow> False | Some t \<Rightarrow> kind t = ''video'') s"

definition getVideoTrack :: "Store \<Rightarrow> CameraCapture \<Rightarrow> nat option" where
  "getVideoTrack st this =
     (case stream this of
        None \<Rightarrow> None
      | Some s \<Rightarrow> (case getVideoTracks st s of [] \<Rightarrow> None | i # _ \<Rightarrow> Some i))"

definition getStreamSettings :: "Store \<Rightarrow> CameraCapture \<Rightarrow> MediaTrackSettings option" where
  "getStreamSettings st this =
     (case getVideoTrack st this of
        None \<Rightarrow> None
      | Some i \<Rightarrow> map_option settings (tracks st i))"

text \<open>\<open>track.stop()\<close> ends the track.\<close>

definition track_stop :: "Store \<Rightarrow> nat \<Rightarrow> Store" where
  "track_stop st i =
     st\<lparr>tracks := (tracks st)(i := map_option (\<lambda>t. t\<lparr>readyState := Ended\<rparr>) (tracks st i))\<rparr>"

text \<open>
  \<open>stop\<close>, statement by statement: the \<open>forEach\<close> over the tracks and the reset of the
  stream, under \<open>if (this.stream)\<close>; the reset of the element's \<open>srcObject\<close> and of the
  member, under \<open>if (this.videoElement)\<close>; the two unconditional assignments.
\<close>

definition stop :: "Store \<times> CameraCapture \<Rightarrow> Store \<times> CameraCapture" where
  "stop w =
     (let (st, this) = w;
          (st1, this1) =
            (case stream this of
               None \<Rightarrow> (st, this)
             | Some s \<Rightarrow> (foldl track_stop st s, this\<lparr>stream := None\<rparr>));
          (st2, this2) =
            (case videoElement this1 of
               None \<Rightarrow> (st1, this1)
             | Some v \<Rightarrow>
                 (st1\<lparr>videoElements :=
                        (videoElements st1)
                          (v := map_option (\<lambda>e. e\<lparr>srcObject := None\<rparr>) (videoElements st1 v))\<rparr>,
                  this1\<lparr>videoElement := None\<rparr>))
      in (st2, this2\<lparr>canvas := None, canvasContext := None\<rparr>))"

subsection \<open>Properties of CameraCapture.stop\<close>

text \<open>A camera in use: one live audio and one live video track, shown in element 7.\<close>

definition camera_running :: "Store \<times> CameraCapture" where
  "camera_running =
     (\<lparr>tracks = (\<lambda>i. None)
          (0 := Some \<lparr>kind = ''audio'', label = ''mic'', readyState = Live, settings = 10\<rparr>,
           1 := Some \<lparr>kind = ''video'', label = ''cam'', readyState = Live, settings = 11\<rparr>),
        videoElements = (\<lambda>i. None)(7 := Some \<lparr>srcObject = Some [0, 1]\<rparr>)\<rparr>,
      \<lparr>stream = Some [0, 1], videoElement = Some 7, canvas = Some 8, canvasContext = Some 9\<rparr>)"

lemma stop_members:
  "snd (stop w) = \<lparr>stream = None, videoElement = None, canvas = None, canvasContext = None\<rparr>"
  by (cases w) (simp add: stop_def split: option.splits prod.splits)

lemma stop_when_stopped:
  "stream this = None \<Longrightarrow> videoElement this = None \<Longrightarrow> canvas this = None \<Longrightarrow>
   canvasContext this = None \<Longrightarrow> stop (st, this) = (st, this)"
  by (simp add: stop_def)

lemma stop_stop: "stop (stop w) = stop w"
proof -
  obtain st this where w: "stop w = (st, this)"
    by (cases "stop w") auto
  have "this = \<lparr>stream = None, videoElement = None, canvas = None, canvasContext = None\<rparr>"
    using stop_members [of w] w by simp
  then have "stop (st, this) = (st, this)"
    by (simp add: stop_when_stopped)
  with w show ?thesis by simp
qed

text \<open>
  C10: after one call to \<open>stop\<close>, \<open>getStream\<close>, \<open>getVideoTrack\<close> and
  \<open>getStreamSettings\<close> all return null, and a second call changes nothing: neither
  the members of the object nor the tracks and the video element in the store.
\<close>

theorem stop_idempotent:
  "getStream (snd (stop w)) = None \<and>
   getVideoTrack (fst (stop w)) (snd (stop w)) = None \<and>
   getStreamSettings (fst (stop w)) (snd (stop w)) = None \<and>
   stop (stop w) = stop w"
  by (simp add: stop_stop stop_members getStream_def getVideoTrack_def getStreamSettings_def)

text \<open>On the running camera the first call does change things: both tracks end, the
  element loses its stream, and the four members are reset.\<close>

theorem stop_idempotent_witness:
  "getStream (snd camera_running) = Some [0, 1] \<and>
   getVideoTrack (fst camera_running) (snd camera_running) = Some 1 \<and>
   getStreamSettings (fst camera_running) (snd camera_running) = Some 11 \<and>
   map_option readyState (tracks (fst (stop camera_running)) 1) = Some Ended \<and>
   getStream (snd (stop camera_running)) = None \<and>
   getVideoTrack (fst (stop camera_running)) (snd (stop camera_running)) = None \<and>
   getStreamSettings (fst (stop camera_running)) (snd (stop camera_running)) = None \<and>
   stop (stop camera_running) = stop camera_running"
  using stop_idempotent [of camera_running]
  by (simp add: camera_running_def stop_def track_stop_def getStream_def getVideoTrack_def
      getVideoTracks_def getStreamSettings_def)

section \<open>The frame ring buffer (OptimizedFrameProcessor, Task 5.3 of the development plan)\<close>

text \<open>
  \<open>struct RingBuffer\<close>: a vector of \<open>BUFFER_SIZE\<close> textures created by the constructor
  and two atomic \<open>size_t\<close> indices that start at 0. A texture is modelled by what was
  last uploaded into it (\<open>None\<close> as long as nothing was). \<open>size_t\<close> is an unsigned
  machine word, so \<open>writeIdx + 1\<close> wraps around; the type of the indices is the
  parameter \<open>'i\<close>, which every function below takes to be a word of some width \<open>'w\<close>
  (32 bits for the WebAssembly target of the build script, 64 bits on a native
  build).
\<close>

record ('i, 'f) RingBuffer =
  textures :: "'f option list"
  writeIndex :: 'i
  readIndex :: 'i

definition BUFFER_SIZE :: nat where
  "BUFFER_SIZE = 4"

definition RingBuffer_new :: "('w::len word, 'f) RingBuffer" where
  "RingBuffer_new = \<lparr>textures = replicate BUFFER_SIZE None, writeIndex = 0, readIndex = 0\<rparr>"

text \<open>
  The part of \<open>processFrameOptimized\<close> that works on the buffer, in the order of the
  source: load \<open>writeIndex\<close>, pick the texture \<open>writeIdx % BUFFER_SIZE\<close>, upload the
  frame into it, run the batch step, store \<open>writeIdx + 1\<close>. The helper
  \<open>uploadFrameToTexture\<close> is not in the sources; it is taken to do what its name and
  arguments say, copy the frame into the texture (\<open>frameData\<close> stands for the pixels
  with their width and height). The helpers \<open>shouldBatchProcess\<close> and
  \<open>batchProcessFrames\<close> are not in the sources either; their joint effect on the buffer
  is the parameter \<open>batch\<close>, about which nothing is fixed here. Whatever it does to
  \<open>writeIndex\<close> is overwritten by the store that follows it.
\<close>

definition push ::
  "(('w::len word, 'f) RingBuffer \<Rightarrow> ('w word, 'f) RingBuffer) \<Rightarrow> ('w word, 'f) RingBuffer \<Rightarrow> 'f \<Rightarrow>
   ('w word, 'f) RingBuffer" where
  "push batch rb frameData =
     (let writeIdx = writeIndex rb;
          rb1 = rb\<lparr>textures :=
                    (textures rb)[unat writeIdx mod BUFFER_SIZE := Some frameData]\<rparr>;
          rb2 = batch rb1
      in rb2\<lparr>writeIndex := writeIdx + 1\<rparr>)"

text \<open>
  \<open>processFrameOptimized\<close> itself, the only function that writes to the buffer. It
  reads the steady clock; the reading is the argument \<open>now\<close>. The library expression
  \<open>duration_cast<milliseconds>(now - lastFrameTime).count()\<close> is the parameter \<open>ms\<close>,
  applied to \<open>now\<close> and \<open>lastFrameTime\<close>. A frame that arrives less than 33 ms after the
  last accepted one is skipped before it reaches the buffer.
  \<open>updatePerformanceMetrics\<close> only counts in a static variable of its own and is left
  out.
\<close>

record ('t, 'i, 'f) OptimizedFrameProcessor =
  frameBuffer :: "('i, 'f) RingBuffer"
  lastFrameTime :: 't

definition processFrameOptimized ::
  "('t \<Rightarrow> 't \<Rightarrow> int) \<Rightarrow> (('w::len word, 'f) RingBuffer \<Rightarrow> ('w word, 'f) RingBuffer) \<Rightarrow>
   ('t, 'w word, 'f) OptimizedFrameProcessor \<Rightarrow> 't \<Rightarrow> 'f \<Rightarrow>
   ('t, 'w word, 'f) OptimizedFrameProcessor" where
  "processFrameOptimized ms batch this now frameData =
     (let elapsed = ms now (lastFrameTime this)
      in if elapsed < 33 then this
         else this\<lparr>frameBuffer := push batch (frameBuffer this) frameData,
                   lastFrameTime := now\<rparr>)"

text \<open>
  A new object (\<open>lastFrameTime\<close> is a default-constructed time point, the parameter
  \<open>epoch\<close>) and a burst of calls, each with its clock reading and its frame.
\<close>

definition OptimizedFrameProcessor_new :: "'t \<Rightarrow> ('t, 'w::len word, 'f) OptimizedFrameProcessor" where
  "OptimizedFrameProcessor_new epoch = \<lparr>frameBuffer = RingBuffer_new, lastFrameTime = epoch\<rparr>"

definition process_all ::
  "('t \<Rightarrow> 't \<Rightarrow> int) \<Rightarrow> (('w::len word, 'f) RingBuffer \<Rightarrow> ('w word, 'f) RingBuffer) \<Rightarrow>
   ('t, 'w word, 'f) OptimizedFrameProcessor \<Rightarrow> ('t \<times> 'f) list \<Rightarrow>
   ('t, 'w word, 'f) OptimizedFrameProcessor" where
  "process_all ms batch this burst =
     foldl (\<lambda>this (now, frameData). processFrameOptimized ms batch this now frameData) this burst"

text \<open>
  The frames of a burst that pass the 33 ms test, given the time of the last frame
  accepted before the burst.
\<close>

fun accepted :: "('t \<Rightarrow> 't \<Rightarrow> int) \<Rightarrow> 't \<Rightarrow> ('t \<times> 'f) list \<Rightarrow> 'f list" where
  "accepted ms lastTime [] = []"
| "accepted ms lastTime ((now, frameData) # burst) =
     (if ms now lastTime < 33 then accepted ms lastTime burst
      else frameData # accepted ms now burst)"

text \<open>
  The slots that the last \<open>BUFFER_SIZE\<close> of \<open>n\<close> writes went to (all \<open>n\<close>, when there
  were fewer), in the order of the writes.
\<close>

definition frames_held :: "nat \<Rightarrow> ('i, 'f) RingBuffer \<Rightarrow> 'f option list" where
  "frames_held n rb =
     map (\<lambda>i. textures rb ! (i mod BUFFER_SIZE)) [n - min n BUFFER_SIZE ..< n]"

subsection \<open>Properties of the ring buffer\<close>

lemma process_all_accepted:
  "frameBuffer (process_all ms batch this burst) =
     foldl (push batch) (frameBuffer this) (accepted ms (lastFrameTime this) burst)"
proof (induction burst arbitrary: this)
  case Nil
  show ?case by (simp add: process_all_def)
next
  case (Cons call burst)
  obtain now frameData where call: "call = (now, frameData)"
    by (cases call) auto
  let ?this' = "processFrameOptimized ms batch this now frameData"
  have "frameBuffer (process_all ms batch this (call # burst)) =
        frameBuffer (process_all ms batch ?this' burst)"
    by (simp add: process_all_def call)
  also have "\<dots> = foldl (push batch) (frameBuffer ?this')
                     (accepted ms (lastFrameTime ?this') burst)"
    by (rule Cons.IH)
  also have "\<dots> = foldl (push batch) (frameBuffer this)
                     (accepted ms (lastFrameTime this) (call # burst))"
    by (simp add: processFrameOptimized_def Let_def call)
  finally show ?case .
qed

lemma slot_of_index:
  assumes "2 \<le> LENGTH('w::len)"
  shows "unat (word_of_nat n :: 'w word) mod BUFFER_SIZE = n mod BUFFER_SIZE"
proof -
  from assms have "(2::nat) ^ 2 dvd 2 ^ LENGTH('w)"
    by (rule le_imp_power_dvd)
  then have "(4::nat) dvd 2 ^ LENGTH('w)"
    by simp
  then have "n mod 2 ^ LENGTH('w) mod 4 = n mod 4"
    by (rule mod_mod_cancel)
  then show ?thesis
    by (simp add: BUFFER_SIZE_def unat_of_nat)
qed

lemma pushes_indices:
  fixes batch :: "('w::len word, 'f) RingBuffer \<Rightarrow> ('w word, 'f) RingBuffer"
  assumes "\<And>rb. textures (batch rb) = textures rb"
  shows "length (textures (foldl (push batch) RingBuffer_new fs)) = BUFFER_SIZE \<and>
         writeIndex (foldl (push batch) RingBuffer_new fs) = word_of_nat (length fs)"
proof (induction fs rule: rev_induct)
  case Nil
  show ?case by (simp add: RingBuffer_new_def)
next
  case (snoc f fs)
  then show ?case by (simp add: push_def Let_def assms)
qed

lemma pushes_slot:
  fixes batch :: "('w::len word, 'f) RingBuffer \<Rightarrow> ('w word, 'f) RingBuffer"
  assumes "\<And>rb. textures (batch rb) = textures rb" and wide: "2 \<le> LENGTH('w)"
  shows "i < length fs \<Longrightarrow> length fs \<le> i + BUFFER_SIZE \<Longrightarrow>
         textures (foldl (push batch) RingBuffer_new fs) ! (i mod BUFFER_SIZE) = Some (fs ! i)"
proof (induction fs rule: rev_induct)
  case Nil
  then show ?case by simp
next
  case (snoc f fs)
  let ?rb = "foldl (push batch) RingBuffer_new fs"
  have len: "length (textures ?rb) = BUFFER_SIZE"
    and wr: "writeIndex ?rb = word_of_nat (length fs)"
    using pushes_indices [OF assms(1), of fs] by simp_all
  have tex: "textures (push batch ?rb f) =
             (textures ?rb)[length fs mod BUFFER_SIZE := Some f]"
    by (simp add: push_def Let_def assms(1) wr slot_of_index [OF wide])
  show ?case
  proof (cases "i = length fs")
    case True
    then show ?thesis
      by (simp add: tex len BUFFER_SIZE_def)
  next
    case False
    with snoc.prems have lt: "i < length fs" and near: "length fs < i + BUFFER_SIZE"
      by simp_all
    have other: "length fs mod BUFFER_SIZE \<noteq> i mod BUFFER_SIZE"
    proof
      assume eq: "length fs mod BUFFER_SIZE = i mod BUFFER_SIZE"
      have "(length fs - i) mod BUFFER_SIZE = 0"
        using lt eq by (metis less_imp_le_nat mod_eq_dvd_iff_nat dvd_imp_mod_0)
      moreover have "0 < length fs - i" "length fs - i < BUFFER_SIZE"
        using lt near by simp_all
      ultimately show False by simp
    qed
    have "textures ?rb ! (i mod BUFFER_SIZE) = Some (fs ! i)"
      using snoc.IH lt near by simp
    then show ?thesis
      using other lt by (simp add: tex nth_append)
  qed
qed

text \<open>
  C2, as the code has it. The buffer has the fixed size 4. \<open>processFrameOptimized\<close>
  skips a frame that arrives less than 33 ms after the last accepted one; an accepted
  frame is written into slot \<open>writeIndex mod 4\<close> and \<open>writeIndex + 1\<close> is stored, so a
  write to a full buffer reuses the slot of the oldest frame held. As long as the
  batch step leaves the textures alone, after any burst of calls on a new object the
  buffer has its 4 textures, \<open>writeIndex\<close> is the number of accepted frames as a word
  of \<open>size_t\<close>'s width (at least 2 bits), and the slots hold exactly the last 4
  accepted frames in order (all of them when at most 4 were accepted), so the number
  of accepted frames that were overwritten is their number minus 4.
\<close>

theorem processFrameOptimized_keeps_newest:
  fixes batch :: "('w::len word, 'f) RingBuffer \<Rightarrow> ('w word, 'f) RingBuffer"
  assumes "\<And>rb. textures (batch rb) = textures rb" and "2 \<le> LENGTH('w)"
  shows
    "length (textures (frameBuffer
        (process_all ms batch (OptimizedFrameProcessor_new epoch) burst))) = BUFFER_SIZE \<and>
     writeIndex (frameBuffer (process_all ms batch (OptimizedFrameProcessor_new epoch) burst)) =
       word_of_nat (length (accepted ms epoch burst)) \<and>
     frames_held (length (accepted ms epoch burst))
        (frameBuffer (process_all ms batch (OptimizedFrameProcessor_new epoch) burst)) =
       map Some (drop (length (accepted ms epoch burst) - BUFFER_SIZE) (accepted ms epoch burst)) \<and>
     length (accepted ms epoch burst) -
       length (frames_held (length (accepted ms epoch burst))
         (frameBuffer (process_all ms batch (OptimizedFrameProcessor_new epoch) burst))) =
       length (accepted ms epoch burst) - BUFFER_SIZE"
proof -
  let ?fs = "accepted ms epoch burst"
  let ?rb = "frameBuffer (process_all ms batch (OptimizedFrameProcessor_new epoch) burst)"
  have rb: "?rb = foldl (push batch) RingBuffer_new ?fs"
    using process_all_accepted [of ms batch "OptimizedFrameProcessor_new epoch" burst]
    by (simp add: OptimizedFrameProcessor_new_def)
  have idx: "length (textures ?rb) = BUFFER_SIZE" "writeIndex ?rb = word_of_nat (length ?fs)"
    using pushes_indices [OF assms(1), of ?fs] by (simp_all only: rb)
  have held: "frames_held (length ?fs) ?rb = map Some (drop (length ?fs - BUFFER_SIZE) ?fs)"
  proof (rule nth_equalityI)
    show "length (frames_held (length ?fs) ?rb) =
          length (map Some (drop (length ?fs - BUFFER_SIZE) ?fs))"
      by (simp add: frames_held_def)
  next
    fix k assume "k < length (frames_held (length ?fs) ?rb)"
    then have k: "k < min (length ?fs) BUFFER_SIZE"
      by (simp add: frames_held_def)
    let ?i = "length ?fs - min (length ?fs) BUFFER_SIZE + k"
    have i: "?i < length ?fs" "length ?fs \<le> ?i + BUFFER_SIZE"
      using k by auto
    have pos: "[length ?fs - min (length ?fs) BUFFER_SIZE ..< length ?fs] ! k = ?i"
      using k by (intro nth_upt) auto
    have "frames_held (length ?fs) ?rb ! k =
          textures ?rb !
            ([length ?fs - min (length ?fs) BUFFER_SIZE ..< length ?fs] ! k mod BUFFER_SIZE)"
      using k by (simp add: frames_held_def del: nth_upt)
    also have "\<dots> = textures ?rb ! (?i mod BUFFER_SIZE)"
      by (simp only: pos)
    also have "\<dots> = Some (?fs ! ?i)"
      using pushes_slot [OF assms i] by (simp only: rb)
    also have "\<dots> = map Some (drop (length ?fs - BUFFER_SIZE) ?fs) ! k"
      using k by (simp add: min_def split: if_splits)
    finally show "frames_held (length ?fs) ?rb ! k =
                  map Some (drop (length ?fs - BUFFER_SIZE) ?fs) ! k" .
  qed
  have len: "length (frames_held (length ?fs) ?rb) = min (length ?fs) BUFFER_SIZE"
    by (simp add: held)
  show ?thesis
    using idx held len by auto
qed

text \<open>
  Times in milliseconds. Six frames 40 ms apart are all accepted: frames 1 and 2 are
  overwritten, 3 to 6 are held. The batch step here marks everything written so far
  as read; it does not touch the textures.
\<close>

definition ms_between :: "int \<Rightarrow> int \<Rightarrow> int" where
  "ms_between now lastTime = now - lastTime"

definition read_all :: "(32 word, nat) RingBuffer \<Rightarrow> (32 word, nat) RingBuffer" where
  "read_all rb = rb\<lparr>readIndex := writeIndex rb\<rparr>"

definition steady_burst :: "(int \<times> nat) list" where
  "steady_burst = [(40, 1), (80, 2), (120, 3), (160, 4), (200, 5), (240, 6)]"

definition fast_burst :: "(int \<times> nat) list" where
  "fast_burst = [(100, 1), (116, 2), (133, 3), (150, 4), (166, 5), (183, 6)]"

theorem processFrameOptimized_keeps_newest_witness:
  "accepted ms_between 0 steady_burst = [1, 2, 3, 4, 5, 6] \<and>
   textures (frameBuffer (process_all ms_between read_all (OptimizedFrameProcessor_new 0)
      steady_burst)) = [Some 5, Some 6, Some 3, Some 4] \<and>
   frames_held 6 (frameBuffer (process_all ms_between read_all (OptimizedFrameProcessor_new 0)
      steady_burst)) = [Some 3, Some 4, Some 5, Some 6] \<and>
   writeIndex (frameBuffer (process_all ms_between read_all (OptimizedFrameProcessor_new 0)
      steady_burst)) = 6 \<and>
   (6::nat) - length (frames_held 6 (frameBuffer (process_all ms_between read_all
      (OptimizedFrameProcessor_new 0) steady_burst))) = 2"
proof -
  have batch: "textures (read_all rb) = textures rb" for rb
    by (simp add: read_all_def)
  have wide: "2 \<le> LENGTH(32)"
    by simp
  have acc: "accepted ms_between 0 steady_burst = [1, 2, 3, 4, 5, 6]"
    by (simp add: steady_burst_def ms_between_def)
  have slots: "textures (frameBuffer (process_all ms_between read_all
      (OptimizedFrameProcessor_new 0) steady_burst)) = [Some 5, Some 6, Some 3, Some 4]"
    by code_simp
  have held: "frames_held 6 (frameBuffer (process_all ms_between read_all
      (OptimizedFrameProcessor_new 0) steady_burst)) = [Some 3, Some 4, Some 5, Some 6]"
    by code_simp
  show ?thesis
    using processFrameOptimized_keeps_newest [of read_all ms_between 0 steady_burst, OF batch wide]
      acc slots held
    by (simp add: BUFFER_SIZE_def)
qed

text \<open>
  The claim as it is worded fails. Six frames handed over at 60 frames per second,
  with an empty buffer and nothing consumed: every second one is skipped by the 33 ms
  test, so three frames are lost, not two, none of them the oldest, and the buffer is
  never full. And after six accepted frames the whole object is the record below: two
  frames were overwritten, and neither the buffer nor the processor has a member that
  counts them.
\<close>

theorem processFrameOptimized_counterexample:
  "frameBuffer (process_all ms_between (\<lambda>rb. rb) (OptimizedFrameProcessor_new 0) fast_burst) =
     \<lparr>textures = [Some 1, Some 3, Some 5, None], writeIndex = (3 :: 32 word), readIndex = 0\<rparr> \<and>
   process_all ms_between (\<lambda>rb. rb) (OptimizedFrameProcessor_new 0) steady_burst =
     \<lparr>frameBuffer =
        \<lparr>textures = [Some 5, Some 6, Some 3, Some 4], writeIndex = (6 :: 32 word),
         readIndex = 0\<rparr>,
      lastFrameTime = 240\<rparr>"
  by code_simp

section \<open>The pipeline scheduler's result delivery (specification, sections 3, 4.8 and 5)\<close>

text \<open>
  The repository has no scheduler: the development plan stops at the ring buffer and
  the detection sketch. The definitions of this section follow the specification's
  own description of the scheduler.
\<close>

text \<open>
  Modelled from the spec: the data model's \<open>Frame\<close> (the source has no frame type of
  its own; a frame there is a raw \<open>uint8_t*\<close> with a width and a height). The field
  \<open>id\<close> is called \<open>frameId\<close>.
\<close>

record Frame =
  frameId :: nat
  timestamp :: nat
  frameWidth :: nat
  frameHeight :: nat
  pixelBuffer :: "nat list"

text \<open>
  Modelled from the spec: the data model's \<open>DetectionResult\<close> with its three
  statuses. The type of a defect snapshot is a parameter here.
\<close>

datatype Status = Ok | AlignmentFailed | Dropped

record 'd DetectionResult =
  frame_id :: nat
  defects :: "'d list"
  processing_latency :: nat
  status :: Status

text \<open>
  Modelled from the spec: the scheduler's state, which the source does not have.
  \<open>admitted\<close> are the ids of the admitted frames whose result has not been delivered,
  in the order of admission; \<open>reorderBuffer\<close> is the "small reordering buffer" of
  section 4.8 with the completed results that cannot be delivered yet; \<open>delivered\<close>
  is what the external consumer has received, oldest first.
\<close>

record 'd Scheduler =
  maxInFlightFrames :: nat
  admitted :: "nat list"
  reorderBuffer :: "'d DetectionResult list"
  delivered :: "'d DetectionResult list"

text \<open>
  Modelled from the spec: the scheduler before the first frame, with nothing admitted,
  buffered or delivered.
\<close>

definition Scheduler_new :: "nat \<Rightarrow> 'd Scheduler" where
  "Scheduler_new m =
     \<lparr>maxInFlightFrames = m, admitted = [], reorderBuffer = [], delivered = []\<rparr>"

text \<open>
  Modelled from the spec: the result the reordering buffer holds for the frame with id
  \<open>i\<close>, if it holds one.
\<close>

definition buffered :: "'d DetectionResult list \<Rightarrow> nat \<Rightarrow> 'd DetectionResult option" where
  "buffered buf i = find (\<lambda>r. frame_id r = i) buf"

text \<open>
  Modelled from the spec: "The Scheduler admits up to maxInFlightFrames frames
  concurrently". A frame is in flight from its admission until its result is
  completed; a frame offered while that many are in flight is not admitted.
\<close>

definition inFlight :: "'d Scheduler \<Rightarrow> nat list" where
  "inFlight s = filter (\<lambda>i. buffered (reorderBuffer s) i = None) (admitted s)"

text \<open>
  Modelled from the spec: the admission of a frame, refused when \<open>maxInFlightFrames\<close>
  frames are in flight.
\<close>

definition admit :: "'d Scheduler \<Rightarrow> Frame \<Rightarrow> 'd Scheduler" where
  "admit s f =
     (if length (inFlight s) < maxInFlightFrames s
      then s\<lparr>admitted := admitted s @ [frameId f]\<rparr>
      else s)"

text \<open>
  Modelled from the spec: "out-of-order completions are buffered until prior
  frame_ids are resolved (Dropped/Failed/Done all count as resolved)". The results
  that can be delivered are those of the longest run of resolved frames at the front
  of the admission order.
\<close>

fun deliverable :: "'d DetectionResult list \<Rightarrow> nat list \<Rightarrow> 'd DetectionResult list" where
  "deliverable buf [] = []"
| "deliverable buf (i # ids) =
     (case buffered buf i of
        None \<Rightarrow> []
      | Some r \<Rightarrow> r # deliverable buf ids)"

text \<open>
  Modelled from the spec: the delivery itself. The deliverable results go to the
  consumer in the order of admission and leave the buffer; their frames are no longer
  awaited.
\<close>

definition flush :: "'d Scheduler \<Rightarrow> 'd Scheduler" where
  "flush s =
     (let rs = deliverable (reorderBuffer s) (admitted s)
      in s\<lparr>admitted := drop (length rs) (admitted s),
           reorderBuffer :=
             filter (\<lambda>r. frame_id r \<notin> set (map frame_id rs)) (reorderBuffer s),
           delivered := delivered s @ rs\<rparr>)"

text \<open>
  Modelled from the spec: a frame's processing ends with a \<open>DetectionResult\<close>, whatever
  its status. The result of a frame that is not awaited (never admitted, or already
  resolved) is discarded; any other is put into the reordering buffer, and
  everything that has become deliverable is handed to the consumer.
\<close>

definition complete :: "'d Scheduler \<Rightarrow> 'd DetectionResult \<Rightarrow> 'd Scheduler" where
  "complete s r =
     (if frame_id r \<in> set (inFlight s)
      then flush (s\<lparr>reorderBuffer := reorderBuffer s @ [r]\<rparr>)
      else s)"

text \<open>
  Modelled from the spec: what happens to the scheduler, one event at a time, from
  its start with a given \<open>maxInFlightFrames\<close>.
\<close>

datatype 'd event = Admit Frame | Complete "'d DetectionResult"

fun step :: "'d Scheduler \<Rightarrow> 'd event \<Rightarrow> 'd Scheduler" where
  "step s (Admit f) = admit s f"
| "step s (Complete r) = complete s r"

definition run :: "nat \<Rightarrow> 'd event list \<Rightarrow> 'd Scheduler" where
  "run m evs = foldl step (Scheduler_new m) evs"

text \<open>The ids of the frames offered for admission, in order.\<close>

fun offered :: "'d event list \<Rightarrow> nat list" where
  "offered [] = []"
| "offered (Admit f # evs) = frameId f # offered evs"
| "offered (Complete r # evs) = offered evs"

text \<open>The ids the consumer has seen followed by the ids still awaited.\<close>

definition id_order :: "'d Scheduler \<Rightarrow> nat list" where
  "id_order s = map frame_id (delivered s) @ admitted s"

subsection \<open>Properties of the delivery order\<close>

lemma buffered_frame_id: "buffered buf i = Some r \<Longrightarrow> frame_id r = i"
  by (auto simp: buffered_def find_Some_iff)

lemma deliverable_prefix:
  "map frame_id (deliverable buf ids) = take (length (deliverable buf ids)) ids"
  by (induction ids) (auto split: option.splits dest: buffered_frame_id)

lemma id_order_flush: "id_order (flush s) = id_order s"
proof -
  let ?rs = "deliverable (reorderBuffer s) (admitted s)"
  have "map frame_id ?rs @ drop (length ?rs) (admitted s) = admitted s"
    by (simp add: deliverable_prefix)
  then show ?thesis
    by (simp add: id_order_def flush_def Let_def)
qed

lemma id_order_complete: "id_order (complete s r) = id_order s"
proof (cases "frame_id r \<in> set (inFlight s)")
  case True
  have "id_order (s\<lparr>reorderBuffer := reorderBuffer s @ [r]\<rparr>) = id_order s"
    by (simp add: id_order_def)
  with True show ?thesis
    by (simp add: complete_def id_order_flush)
next
  case False
  then show ?thesis by (simp add: complete_def)
qed

lemma id_order_admit:
  "id_order (admit s f) = id_order s \<or> id_order (admit s f) = id_order s @ [frameId f]"
  by (simp add: admit_def id_order_def)

lemma offered_append: "offered (evs @ evs') = offered evs @ offered evs'"
  by (induction evs rule: offered.induct) simp_all

lemma run_snoc: "run m (evs @ [e]) = step (run m evs) e"
  by (simp add: run_def)

lemma id_order_run:
  "sorted_wrt (<) (offered evs) \<Longrightarrow>
   sorted_wrt (<) (id_order (run m evs)) \<and> set (id_order (run m evs)) \<subseteq> set (offered evs)"
proof (induction evs rule: rev_induct)
  case Nil
  show ?case by (simp add: run_def Scheduler_new_def id_order_def)
next
  case (snoc e evs)
  from snoc.prems have sorted_evs: "sorted_wrt (<) (offered evs)"
    by (simp add: offered_append sorted_wrt_append)
  note IH = snoc.IH [OF sorted_evs]
  show ?case
  proof (cases e)
    case (Complete r)
    with IH show ?thesis
      by (simp add: run_snoc id_order_complete offered_append)
  next
    case (Admit f)
    from snoc.prems Admit have above: "\<forall>i \<in> set (offered evs). i < frameId f"
      by (simp add: offered_append sorted_wrt_append)
    from id_order_admit [of "run m evs" f] show ?thesis
    proof
      assume "id_order (admit (run m evs) f) = id_order (run m evs)"
      with IH Admit show ?thesis
        by (auto simp: run_snoc offered_append)
    next
      assume "id_order (admit (run m evs) f) = id_order (run m evs) @ [frameId f]"
      with IH Admit above show ?thesis
        by (auto simp: run_snoc offered_append sorted_wrt_append)
    qed
  qed
qed

lemma deliverable_stops:
  "case drop (length (deliverable buf ids)) ids of
     [] \<Rightarrow> True
   | i # rest \<Rightarrow> buffered buf i = None"
  by (induction ids) (auto split: option.splits)

text \<open>
  A result stays in the reordering buffer only while some frame admitted before its
  own is unresolved: the oldest awaited frame has no result yet, and every buffered
  result belongs to a later awaited frame.
\<close>

definition held_back :: "'d Scheduler \<Rightarrow> bool" where
  "held_back s =
     (case admitted s of
        [] \<Rightarrow> reorderBuffer s = []
      | i # rest \<Rightarrow>
          buffered (reorderBuffer s) i = None \<and>
          list_all (\<lambda>r. i < frame_id r \<and> frame_id r \<in> set rest) (reorderBuffer s))"

definition buffer_awaited :: "'d Scheduler \<Rightarrow> bool" where
  "buffer_awaited s =
     (set (map frame_id (reorderBuffer s)) \<subseteq> set (admitted s) \<and>
      (case admitted s of [] \<Rightarrow> True | i # rest \<Rightarrow> buffered (reorderBuffer s) i = None))"

lemma buffered_filter:
  "buffered buf i = None \<Longrightarrow> buffered (filter Q buf) i = None"
  by (auto simp: buffered_def find_None_iff)

lemma buffer_awaited_flush:
  assumes "set (map frame_id (reorderBuffer s)) \<subseteq> set (admitted s)"
  shows "buffer_awaited (flush s)"
proof -
  let ?rs = "deliverable (reorderBuffer s) (admitted s)"
  let ?k = "length ?rs"
  have ids: "set (map frame_id ?rs) = set (take ?k (admitted s))"
    by (simp only: deliverable_prefix [of "reorderBuffer s" "admitted s"])
  have split: "set (admitted s) = set (take ?k (admitted s)) \<union> set (drop ?k (admitted s))"
    by (metis append_take_drop_id set_append)
  have sub: "set (map frame_id (reorderBuffer (flush s))) \<subseteq> set (admitted (flush s))"
    using assms ids split by (auto simp: flush_def Let_def)
  have "case drop ?k (admitted s) of
          [] \<Rightarrow> True
        | i # rest \<Rightarrow> buffered (reorderBuffer s) i = None"
    by (rule deliverable_stops)
  then have
    "case admitted (flush s) of
       [] \<Rightarrow> True
     | i # rest \<Rightarrow> buffered (reorderBuffer (flush s)) i = None"
    by (auto simp: flush_def Let_def buffered_filter split: list.splits)
  with sub show ?thesis
    by (simp add: buffer_awaited_def)
qed

lemma buffer_awaited_complete:
  "buffer_awaited s \<Longrightarrow> buffer_awaited (complete s r)"
proof (cases "frame_id r \<in> set (inFlight s)")
  case False
  assume "buffer_awaited s"
  with False show ?thesis by (simp add: complete_def)
next
  case True
  assume inv: "buffer_awaited s"
  let ?s1 = "s\<lparr>reorderBuffer := reorderBuffer s @ [r]\<rparr>"
  from True have "frame_id r \<in> set (admitted s)"
    by (simp add: inFlight_def)
  with inv have "set (map frame_id (reorderBuffer ?s1)) \<subseteq> set (admitted ?s1)"
    by (simp add: buffer_awaited_def)
  then have "buffer_awaited (flush ?s1)"
    by (rule buffer_awaited_flush)
  with True show ?thesis by (simp add: complete_def)
qed

lemma buffer_awaited_admit:
  "buffer_awaited s \<Longrightarrow> buffer_awaited (admit s f)"
  by (cases "admitted s")
     (auto simp: buffer_awaited_def admit_def buffered_def)

lemma buffer_awaited_run: "buffer_awaited (run m evs)"
proof (induction evs rule: rev_induct)
  case Nil
  show ?case by (simp add: run_def Scheduler_new_def buffer_awaited_def)
next
  case (snoc e evs)
  then show ?case
    by (cases e) (simp_all add: run_snoc buffer_awaited_admit buffer_awaited_complete)
qed

lemma held_back_from_awaited:
  assumes "buffer_awaited s" and "sorted_wrt (<) (admitted s)"
  shows "held_back s"
proof (cases "admitted s")
  case Nil
  with assms(1) show ?thesis
    by (simp add: held_back_def buffer_awaited_def)
next
  case (Cons i rest)
  from assms(1) Cons have none: "buffered (reorderBuffer s) i = None"
    and sub: "\<forall>r \<in> set (reorderBuffer s). frame_id r \<in> set (i # rest)"
    by (auto simp: buffer_awaited_def)
  from none have "\<forall>r \<in> set (reorderBuffer s). frame_id r \<noteq> i"
    by (auto simp: buffered_def find_None_iff)
  with sub have later: "\<forall>r \<in> set (reorderBuffer s). frame_id r \<in> set rest"
    by auto
  moreover from assms(2) Cons have "\<forall>j \<in> set rest. i < j"
    by simp
  ultimately show ?thesis
    using none Cons by (auto simp: held_back_def list_all_iff)
qed

text \<open>
  C1, on the scheduler the specification describes: when the frames offered for
  admission carry strictly increasing ids, then after any sequence of admissions and
  completions, in whatever order the completions arrive, the results handed to the
  consumer have strictly increasing frame ids; and a completed result is still in
  the reordering buffer only if a frame admitted before its own is unresolved.
\<close>

theorem delivered_strictly_increasing:
  assumes "sorted_wrt (<) (offered evs)"
  shows "sorted_wrt (<) (map frame_id (delivered (run m evs))) \<and> held_back (run m evs)"
proof -
  from id_order_run [OF assms, of m]
  have ord: "sorted_wrt (<) (map frame_id (delivered (run m evs)) @ admitted (run m evs))"
    by (simp add: id_order_def)
  then have "sorted_wrt (<) (map frame_id (delivered (run m evs)))"
    and "sorted_wrt (<) (admitted (run m evs))"
    by (simp_all add: sorted_wrt_append)
  then show ?thesis
    using held_back_from_awaited [OF buffer_awaited_run] by blast
qed

text \<open>
  Three frames are admitted; frame 3 completes first, then 2, then 1. Nothing is
  delivered before frame 1 completes, and then all three are, in the order 1, 2, 3.
\<close>

definition test_frame :: "nat \<Rightarrow> Frame" where
  "test_frame i = \<lparr>frameId = i, timestamp = 0, frameWidth = 2, frameHeight = 1, pixelBuffer = [0, 0]\<rparr>"

definition test_result :: "nat \<Rightarrow> Status \<Rightarrow> nat DetectionResult" where
  "test_result i st = \<lparr>frame_id = i, defects = [], processing_latency = 5, status = st\<rparr>"

definition out_of_order :: "nat event list" where
  "out_of_order =
     [Admit (test_frame 1), Admit (test_frame 2), Admit (test_frame 3),
      Complete (test_result 3 Ok), Complete (test_result 2 Dropped), Complete (test_result 1 AlignmentFailed)]"

theorem delivered_strictly_increasing_witness:
  "sorted_wrt (<) (offered out_of_order) \<and>
   delivered (run 4 (butlast out_of_order)) = [] \<and>
   map frame_id (reorderBuffer (run 4 (butlast out_of_order))) = [3, 2] \<and>
   map frame_id (delivered (run 4 out_of_order)) = [1, 2, 3] \<and>
   sorted_wrt (<) (map frame_id (delivered (run 4 out_of_order))) \<and>
   held_back (run 4 out_of_order)"
proof -
  have offered: "sorted_wrt (<) (offered out_of_order)"
    by (simp add: out_of_order_def test_frame_def)
  have before: "delivered (run 4 (butlast out_of_order)) = [] \<and>
      map frame_id (reorderBuffer (run 4 (butlast out_of_order))) = [3, 2]"
    by (simp add: out_of_order_def run_def Scheduler_new_def test_frame_def test_result_def
        admit_def complete_def flush_def inFlight_def buffered_def)
  have after: "map frame_id (delivered (run 4 out_of_order)) = [1, 2, 3]"
    by (simp add: out_of_order_def run_def Scheduler_new_def test_frame_def test_result_def
        admit_def complete_def flush_def inFlight_def buffered_def)
  from delivered_strictly_increasing [OF offered, of 4] offered before after
  show ?thesis by simp
qed

section \<open>The temporal aggregator (specification, sections 3 and 4.7)\<close>

text \<open>
  The repository has no temporal aggregator: \<open>detectDefects\<close> in the development plan
  returns the extracted regions of one frame and keeps nothing between frames. The
  definitions of this section follow the specification's description.
\<close>

text \<open>
  Modelled from the spec: a bounding box in cell coordinates (corner, width, height),
  the data model's \<open>CandidateRegion\<close> and its \<open>Defect\<close>. Confidence and mean
  deviation are numbers whose representation plays no part here; their type is the
  parameter \<open>'c\<close>.
\<close>

record BoundingBox =
  box_x :: nat
  box_y :: nat
  box_width :: nat
  box_height :: nat

record 'c CandidateRegion =
  label_id :: nat
  region_box :: BoundingBox
  pixel_area :: nat
  mean_deviation :: 'c

record 'c Defect =
  defect_id :: nat
  bounding_box :: BoundingBox
  area :: nat
  confidence :: 'c
  first_seen_frame :: nat
  last_seen_frame :: nat

text \<open>
  Modelled from the spec: the three states of a tracked defect (section 4.7) and
  what the aggregator keeps for each: the defect, its state, the number of
  consecutive frames up to the last one in which it appeared, and the number of
  consecutive frames up to the last one in which it did not.
\<close>

datatype Phase = Pending | Confirmed | Retired

record 'c Tracked =
  defect :: "'c Defect"
  phase :: Phase
  seen_run :: nat
  missed_run :: nat

text \<open>
  Modelled from the spec: \<open>confirmFrameCount\<close> (N) and \<open>retireFrameCount\<close> (M) of the
  configuration surface, and the "minimum fraction" of overlap of section 4.7, here
  a percentage of the tracked defect's box.
\<close>

record AggregatorConfig =
  confirmFrameCount :: nat
  retireFrameCount :: nat
  minOverlapPercent :: nat

text \<open>
  Modelled from the spec: the aggregator's state, the tracked defects and the id the
  next new defect gets; at the start nothing is tracked.
\<close>

record 'c Aggregator =
  tracked :: "'c Tracked list"
  next_defect_id :: nat

definition Aggregator_new :: "'c Aggregator" where
  "Aggregator_new = \<lparr>tracked = [], next_defect_id = 0\<rparr>"

text \<open>The id and the box of a tracked defect.\<close>

definition tracked_id :: "'c Tracked \<Rightarrow> nat" where
  "tracked_id t = defect_id (defect t)"

definition tracked_box :: "'c Tracked \<Rightarrow> BoundingBox" where
  "tracked_box t = bounding_box (defect t)"

text \<open>
  Modelled from the spec: "bounding-box overlap". The overlap of two boxes is the
  area of their intersection (0 when they are apart; the subtraction stops at 0).
\<close>

definition overlap_1d :: "nat \<Rightarrow> nat \<Rightarrow> nat \<Rightarrow> nat \<Rightarrow> nat" where
  "overlap_1d a m b n = min (a + m) (b + n) - max a b"

definition overlap_area :: "BoundingBox \<Rightarrow> BoundingBox \<Rightarrow> nat" where
  "overlap_area a b =
     overlap_1d (box_x a) (box_width a) (box_x b) (box_width b) *
     overlap_1d (box_y a) (box_height a) (box_y b) (box_height b)"

definition box_area :: "BoundingBox \<Rightarrow> nat" where
  "box_area b = box_width b * box_height b"

definition overlapping :: "BoundingBox \<Rightarrow> BoundingBox \<Rightarrow> bool" where
  "overlapping a b = (0 < overlap_area a b)"

definition above_min :: "AggregatorConfig \<Rightarrow> BoundingBox \<Rightarrow> BoundingBox \<Rightarrow> bool" where
  "above_min cfg d r = (minOverlapPercent cfg * box_area d < 100 * overlap_area d r)"

text \<open>
  Modelled from the spec: "greatest overlap above a minimum fraction wins the match".
  Among the regions whose overlap with the box is above the minimum, the one with
  the greatest overlap; the earliest of them when several are level.
\<close>

fun best_match ::
  "AggregatorConfig \<Rightarrow> BoundingBox \<Rightarrow> 'c CandidateRegion list \<Rightarrow> 'c CandidateRegion option" where
  "best_match cfg b [] = None"
| "best_match cfg b (r # rs) =
     (case best_match cfg b rs of
        None \<Rightarrow> (if above_min cfg b (region_box r) then Some r else None)
      | Some r' \<Rightarrow>
          (if above_min cfg b (region_box r) \<and>
              overlap_area b (region_box r') \<le> overlap_area b (region_box r)
           then Some r else Some r'))"

text \<open>
  Modelled from the spec: a tracked defect that a region of the frame matches. It
  takes the region's box and area, its confidence is computed from the region by
  the region extractor's formula (the parameter \<open>conf\<close>; the spec leaves the formula
  open), and "Pending \<rightarrow> Confirmed after appearing in N consecutive frames".
\<close>

definition seen_again ::
  "AggregatorConfig \<Rightarrow> (nat \<Rightarrow> 'c \<Rightarrow> 'c) \<Rightarrow> nat \<Rightarrow> 'c Tracked \<Rightarrow> 'c CandidateRegion \<Rightarrow> 'c Tracked" where
  "seen_again cfg conf fid t r =
     \<lparr>defect = (defect t)\<lparr>bounding_box := region_box r, area := pixel_area r,
                           confidence := conf (pixel_area r) (mean_deviation r),
                           last_seen_frame := fid\<rparr>,
      phase = (if phase t = Pending \<and> confirmFrameCount cfg \<le> seen_run t + 1
               then Confirmed else phase t),
      seen_run = seen_run t + 1,
      missed_run = 0\<rparr>"

text \<open>
  Modelled from the spec: a tracked defect that no region of the frame matches.
  "Confirmed \<rightarrow> Retired after M consecutive frames with no matching region"; a
  retired defect stays retired. The spec does not say what becomes of a pending
  defect whose run of consecutive frames is broken; here it is forgotten, and a
  region that shows up again later starts a new pending defect.
\<close>

definition not_seen :: "AggregatorConfig \<Rightarrow> 'c Tracked \<Rightarrow> 'c Tracked list" where
  "not_seen cfg t =
     (case phase t of
        Pending \<Rightarrow> []
      | Confirmed \<Rightarrow>
          [t\<lparr>phase := (if retireFrameCount cfg \<le> missed_run t + 1 then Retired else Confirmed),
             seen_run := 0,
             missed_run := missed_run t + 1\<rparr>]
      | Retired \<Rightarrow> [t])"

text \<open>
  Modelled from the spec: "Matches each frame's CandidateRegions against previously
  tracked Defects". The tracked defects are taken in order; each one that is not
  retired takes its best match out of the regions still unmatched. The result is
  the updated defects and the regions left over.
\<close>

fun match_all ::
  "AggregatorConfig \<Rightarrow> (nat \<Rightarrow> 'c \<Rightarrow> 'c) \<Rightarrow> nat \<Rightarrow> 'c Tracked list \<Rightarrow> 'c CandidateRegion list \<Rightarrow>
   'c Tracked list \<times> 'c CandidateRegion list" where
  "match_all cfg conf fid [] rs = ([], rs)"
| "match_all cfg conf fid (t # ts) rs =
     (case (if phase t = Retired then None else best_match cfg (tracked_box t) rs) of
        None \<Rightarrow>
          (let (ts', rest) = match_all cfg conf fid ts rs
           in (not_seen cfg t @ ts', rest))
      | Some r \<Rightarrow>
          (let (ts', rest) = match_all cfg conf fid ts (remove1 r rs)
           in (seen_again cfg conf fid t r # ts', rest)))"

text \<open>
  Modelled from the spec: "Unmatched new CandidateRegions create a new Pending
  Defect", with ids counted up from \<open>n\<close>.
\<close>

fun new_pending ::
  "(nat \<Rightarrow> 'c \<Rightarrow> 'c) \<Rightarrow> nat \<Rightarrow> nat \<Rightarrow> 'c CandidateRegion list \<Rightarrow> 'c Tracked list" where
  "new_pending conf fid n [] = []"
| "new_pending conf fid n (r # rs) =
     \<lparr>defect = \<lparr>defect_id = n, bounding_box = region_box r, area = pixel_area r,
                 confidence = conf (pixel_area r) (mean_deviation r),
                 first_seen_frame = fid, last_seen_frame = fid\<rparr>,
      phase = Pending, seen_run = 1, missed_run = 0\<rparr>
     # new_pending conf fid (Suc n) rs"

text \<open>
  Modelled from the spec: one step of the aggregator, for the frame with id \<open>fid\<close> and
  the candidate regions the region extractor found in it.
\<close>

definition aggregate ::
  "AggregatorConfig \<Rightarrow> (nat \<Rightarrow> 'c \<Rightarrow> 'c) \<Rightarrow> 'c Aggregator \<Rightarrow> nat \<times> 'c CandidateRegion list \<Rightarrow>
   'c Aggregator" where
  "aggregate cfg conf s fr =
     (let (fid, rs) = fr;
          (ts', rest) = match_all cfg conf fid (tracked s) rs
      in \<lparr>tracked = ts' @ new_pending conf fid (next_defect_id s) rest,
          next_defect_id = next_defect_id s + length rest\<rparr>)"

text \<open>
  Modelled from the spec: "Only Confirmed Defects are included in the
  DetectionResult's defect list; Pending ones are internal state."
\<close>

definition report :: "'c Aggregator \<Rightarrow> 'c Defect list" where
  "report s = map defect (filter (\<lambda>t. phase t = Confirmed) (tracked s))"

definition detection_result :: "nat \<Rightarrow> nat \<Rightarrow> 'c Aggregator \<Rightarrow> 'c Defect DetectionResult" where
  "detection_result fid latency s =
     \<lparr>frame_id = fid, defects = report s, processing_latency = latency, status = Ok\<rparr>"


text \<open>
  The aggregator after a list of frames, each frame given by its id and the candidate
  regions the region extractor found in it.
\<close>

definition aggregate_all ::
  "AggregatorConfig \<Rightarrow> (nat \<Rightarrow> 'c \<Rightarrow> 'c) \<Rightarrow> (nat \<times> 'c CandidateRegion list) list \<Rightarrow>
   'c Aggregator" where
  "aggregate_all cfg conf frames = foldl (aggregate cfg conf) Aggregator_new frames"

text \<open>
  The input alone: the boxes of the candidate regions of a frame, and those of the
  \<open>n\<close> most recent frames of a list, the newest frame first.
\<close>

definition frame_boxes :: "nat \<times> 'c CandidateRegion list \<Rightarrow> BoundingBox list" where
  "frame_boxes fr = map region_box (snd fr)"

definition recent_boxes ::
  "nat \<Rightarrow> (nat \<times> 'c CandidateRegion list) list \<Rightarrow> BoundingBox list list" where
  "recent_boxes n frames = take n (rev (map frame_boxes frames))"

text \<open>
  \<open>chain b bss\<close>, for the boxes \<open>bss\<close> of consecutive frames, the newest first: every
  one of these frames has a candidate region, the one in the newest frame has the
  box \<open>b\<close>, and the region of each frame overlaps the region of the frame before it.
\<close>

fun chain :: "BoundingBox \<Rightarrow> BoundingBox list list \<Rightarrow> bool" where
  "chain b [] = True"
| "chain b [bs] = (b \<in> set bs)"
| "chain b (bs # bs' # older) =
     (b \<in> set bs \<and> (\<exists>b' \<in> set bs'. overlapping b' b \<and> chain b' (bs' # older)))"

subsection \<open>Properties of the temporal aggregator\<close>

lemma best_match_Some:
  "best_match cfg b rs = Some r \<Longrightarrow> r \<in> set rs \<and> above_min cfg b (region_box r)"
  by (induction rs arbitrary: r) (auto split: option.splits if_splits)

lemma above_min_overlapping: "above_min cfg d r \<Longrightarrow> overlapping d r"
  by (cases "overlap_area d r") (simp_all add: above_min_def overlapping_def)

lemma tracked_id_seen_again [simp]: "tracked_id (seen_again cfg conf fid t r) = tracked_id t"
  by (simp add: tracked_id_def seen_again_def)

lemma tracked_id_not_seen: "t' \<in> set (not_seen cfg t) \<Longrightarrow> tracked_id t' = tracked_id t"
  by (cases "phase t") (auto simp: not_seen_def tracked_id_def)

text \<open>Every defect that comes out of the matching is one that went in, not seen, or
  seen again in a region of the frame.\<close>

lemma match_all_elem:
  "t' \<in> set (fst (match_all cfg conf fid ts rs)) \<Longrightarrow>
   \<exists>t \<in> set ts. t' \<in> set (not_seen cfg t) \<or>
     (phase t \<noteq> Retired \<and>
      (\<exists>r \<in> set rs. above_min cfg (tracked_box t) (region_box r) \<and>
         t' = seen_again cfg conf fid t r))"
proof (induction ts arbitrary: rs)
  case Nil
  then show ?case by simp
next
  case (Cons t ts)
  show ?case
  proof (cases "if phase t = Retired then None else best_match cfg (tracked_box t) rs")
    case None
    with Cons.prems have "t' \<in> set (not_seen cfg t) \<or>
        t' \<in> set (fst (match_all cfg conf fid ts rs))"
      by (auto split: prod.splits)
    then show ?thesis
      using Cons.IH [of rs] by auto
  next
    case (Some r)
    then have live: "phase t \<noteq> Retired" and best: "best_match cfg (tracked_box t) rs = Some r"
      by (auto split: if_splits)
    have pool: "set (remove1 r rs) \<subseteq> set rs"
      by (rule set_remove1_subset)
    from Some Cons.prems have "t' = seen_again cfg conf fid t r \<or>
        t' \<in> set (fst (match_all cfg conf fid ts (remove1 r rs)))"
      by (auto split: prod.splits)
    then show ?thesis
    proof
      assume "t' = seen_again cfg conf fid t r"
      then show ?thesis
        using live best_match_Some [OF best] by auto
    next
      assume "t' \<in> set (fst (match_all cfg conf fid ts (remove1 r rs)))"
      from Cons.IH [OF this] pool show ?thesis
        by (auto; blast)
    qed
  qed
qed

lemma match_all_rest: "set (snd (match_all cfg conf fid ts rs)) \<subseteq> set rs"
proof (induction ts arbitrary: rs)
  case Nil
  then show ?case by simp
next
  case (Cons t ts)
  show ?case
  proof (cases "if phase t = Retired then None else best_match cfg (tracked_box t) rs")
    case None
    then show ?thesis
      using Cons.IH [of rs] by (simp add: case_prod_beta)
  next
    case (Some r)
    have "set (remove1 r rs) \<subseteq> set rs"
      by (rule set_remove1_subset)
    with Some show ?thesis
      using Cons.IH [of "remove1 r rs"] by (auto simp: case_prod_beta)
  qed
qed

lemma match_all_ids:
  "set (map tracked_id (fst (match_all cfg conf fid ts rs))) \<subseteq> set (map tracked_id ts)"
proof -
  have "tracked_id t' \<in> tracked_id ` set ts"
    if "t' \<in> set (fst (match_all cfg conf fid ts rs))" for t'
    using match_all_elem [OF that] by (auto dest: tracked_id_not_seen)
  then show ?thesis by auto
qed

lemma distinct_not_seen: "distinct (map tracked_id (not_seen cfg t))"
  by (cases "phase t") (simp_all add: not_seen_def)

lemma match_all_distinct:
  "distinct (map tracked_id ts) \<Longrightarrow>
   distinct (map tracked_id (fst (match_all cfg conf fid ts rs)))"
proof (induction ts arbitrary: rs)
  case Nil
  then show ?case by simp
next
  case (Cons t ts)
  have fresh: "tracked_id t \<notin> set (map tracked_id (fst (match_all cfg conf fid ts rs')))" for rs'
    using match_all_ids [of cfg conf fid ts rs'] Cons.prems by auto
  show ?case
  proof (cases "if phase t = Retired then None else best_match cfg (tracked_box t) rs")
    case None
    have "distinct (map tracked_id (not_seen cfg t @ fst (match_all cfg conf fid ts rs)))"
      using Cons.IH [of rs] Cons.prems fresh [of rs] distinct_not_seen [of cfg t]
      by (auto dest: tracked_id_not_seen)
    with None show ?thesis
      by (simp add: case_prod_beta)
  next
    case (Some r)
    have "distinct (map tracked_id
            (seen_again cfg conf fid t r # fst (match_all cfg conf fid ts (remove1 r rs))))"
      using Cons.IH [of "remove1 r rs"] Cons.prems fresh [of "remove1 r rs"] by simp
    with Some show ?thesis
      by (simp add: case_prod_beta)
  qed
qed

lemma new_pending_ids:
  "map tracked_id (new_pending conf fid n rs) = [n ..< n + length rs]"
  by (induction rs arbitrary: n) (simp_all add: tracked_id_def upt_rec)

lemma new_pending_elem:
  "t \<in> set (new_pending conf fid n rs) \<Longrightarrow>
   phase t = Pending \<and> seen_run t = 1 \<and> missed_run t = 0 \<and>
   tracked_box t \<in> region_box ` set rs"
  by (induction rs arbitrary: n) (auto simp: tracked_box_def)

lemma chain_head: "chain b (bs # older) \<Longrightarrow> b \<in> set bs"
  by (cases older) simp_all

lemma chain_extend:
  "b \<in> set bs \<Longrightarrow> overlapping b' b \<Longrightarrow> chain b' (bs' # older) \<Longrightarrow>
   chain b (bs # bs' # older)"
  using chain_head [of b' bs' older] by auto

lemma chain_take: "chain b bss \<Longrightarrow> chain b (take n bss)"
proof (induction bss arbitrary: b n)
  case Nil
  then show ?case by simp
next
  case (Cons bs bss)
  note prem = Cons.prems
  show ?case
  proof (cases n)
    case 0
    then show ?thesis by simp
  next
    case (Suc m)
    show ?thesis
    proof (cases bss)
      case Nil
      with prem Suc show ?thesis by simp
    next
      case (Cons bs' older)
      with prem obtain b' where head: "b \<in> set bs" and b': "b' \<in> set bs'"
        and near: "overlapping b' b" and rest: "chain b' bss"
        by auto
      have shorter: "chain b' (take m bss)"
        using rest by (rule Cons.IH)
      show ?thesis
      proof (cases m)
        case 0
        with Suc head show ?thesis by simp
      next
        case (Suc k)
        with shorter Cons have "chain b' (bs' # take k older)"
          by simp
        with head b' near have "chain b (bs # bs' # take k older)"
          by auto
        with \<open>n = Suc m\<close> Suc Cons show ?thesis by simp
      qed
    qed
  qed
qed

lemma recent_boxes_snoc:
  "recent_boxes (Suc n) (frames @ [fr]) = frame_boxes fr # recent_boxes n frames"
  by (simp add: recent_boxes_def)

lemma recent_boxes_take:
  "m \<le> n \<Longrightarrow> take m (recent_boxes n frames) = recent_boxes m frames"
  by (simp add: recent_boxes_def min_def)

lemma recent_boxes_nonempty:
  "0 < n \<Longrightarrow> n \<le> length frames \<Longrightarrow> \<exists>bs older. recent_boxes n frames = bs # older"
  by (cases "recent_boxes n frames") (auto simp: recent_boxes_def)

lemma aggregate_all_snoc:
  "aggregate_all cfg conf (frames @ [fr]) = aggregate cfg conf (aggregate_all cfg conf frames) fr"
  by (simp add: aggregate_all_def)

text \<open>
  A defect with id \<open>i\<close> was tracked after some \<open>k\<close> of the frames, \<open>k\<close> at least
  \<open>confirmFrameCount\<close>, and the last \<open>confirmFrameCount\<close> of these \<open>k\<close> frames each
  had a candidate region, the newest at the defect's box of that moment, each
  overlapping the one in the frame before.
\<close>

definition appeared_in_a_row ::
  "AggregatorConfig \<Rightarrow> (nat \<Rightarrow> 'c \<Rightarrow> 'c) \<Rightarrow> (nat \<times> 'c CandidateRegion list) list \<Rightarrow> nat \<Rightarrow> bool" where
  "appeared_in_a_row cfg conf frames i =
     (\<exists>k t. confirmFrameCount cfg \<le> k \<and> k \<le> length frames \<and>
        t \<in> set (tracked (aggregate_all cfg conf (take k frames))) \<and> tracked_id t = i \<and>
        chain (tracked_box t) (recent_boxes (confirmFrameCount cfg) (take k frames)))"

lemma appeared_in_a_row_snoc:
  "appeared_in_a_row cfg conf frames i \<Longrightarrow> appeared_in_a_row cfg conf (frames @ [fr]) i"
proof -
  assume "appeared_in_a_row cfg conf frames i"
  then obtain k t where k: "confirmFrameCount cfg \<le> k" "k \<le> length frames"
    and t: "t \<in> set (tracked (aggregate_all cfg conf (take k frames)))" "tracked_id t = i"
    and c: "chain (tracked_box t) (recent_boxes (confirmFrameCount cfg) (take k frames))"
    by (auto simp: appeared_in_a_row_def)
  from k(2) have "take k (frames @ [fr]) = take k frames"
    by simp
  with k t c show ?thesis
    unfolding appeared_in_a_row_def
    by (intro exI [of _ k] exI [of _ t]) simp
qed

text \<open>
  What holds of every tracked defect after any list of frames: a pending defect has a
  candidate region in each of the last \<open>seen_run\<close> frames, the newest at its box, at
  overlapping places; a confirmed defect has appeared in \<open>confirmFrameCount\<close> frames
  in a row.
\<close>

definition tracked_ok ::
  "AggregatorConfig \<Rightarrow> (nat \<Rightarrow> 'c \<Rightarrow> 'c) \<Rightarrow> (nat \<times> 'c CandidateRegion list) list \<Rightarrow>
   'c Tracked \<Rightarrow> bool" where
  "tracked_ok cfg conf frames t =
     ((phase t = Pending \<longrightarrow>
         missed_run t = 0 \<and> 0 < seen_run t \<and> seen_run t \<le> length frames \<and>
         chain (tracked_box t) (recent_boxes (seen_run t) frames)) \<and>
      (phase t = Confirmed \<longrightarrow> appeared_in_a_row cfg conf frames (tracked_id t)))"

definition state_ok ::
  "AggregatorConfig \<Rightarrow> (nat \<Rightarrow> 'c \<Rightarrow> 'c) \<Rightarrow> (nat \<times> 'c CandidateRegion list) list \<Rightarrow> bool" where
  "state_ok cfg conf frames =
     (distinct (map tracked_id (tracked (aggregate_all cfg conf frames))) \<and>
      (\<forall>t \<in> set (tracked (aggregate_all cfg conf frames)).
         tracked_id t < next_defect_id (aggregate_all cfg conf frames) \<and>
         tracked_ok cfg conf frames t))"

lemma tracked_ok_not_seen:
  assumes "tracked_ok cfg conf frames t" and "t' \<in> set (not_seen cfg t)"
  shows "tracked_ok cfg conf (frames @ [fr]) t'"
proof (cases "phase t")
  case Pending
  with assms(2) show ?thesis by (simp add: not_seen_def)
next
  case Retired
  with assms(2) show ?thesis by (simp add: not_seen_def tracked_ok_def)
next
  case Confirmed
  with assms(1) have "appeared_in_a_row cfg conf frames (tracked_id t)"
    by (simp add: tracked_ok_def)
  then have later: "appeared_in_a_row cfg conf (frames @ [fr]) (tracked_id t)"
    by (rule appeared_in_a_row_snoc)
  from Confirmed assms(2) have "phase t' \<noteq> Pending" and "tracked_id t' = tracked_id t"
    by (auto simp: not_seen_def tracked_id_def)
  with later show ?thesis
    by (simp add: tracked_ok_def)
qed

lemma tracked_ok_seen_again:
  fixes fr :: "nat \<times> 'c CandidateRegion list"
  assumes ok: "tracked_ok cfg conf frames t"
    and live: "phase t \<noteq> Retired"
    and r: "r \<in> set (snd fr)"
    and near: "above_min cfg (tracked_box t) (region_box r)"
    and mem: "seen_again cfg conf fid t r \<in> set (tracked (aggregate_all cfg conf (frames @ [fr])))"
  shows "tracked_ok cfg conf (frames @ [fr]) (seen_again cfg conf fid t r)"
proof (cases "phase t")
  case Retired
  with live show ?thesis by simp
next
  case Confirmed
  with ok have "appeared_in_a_row cfg conf frames (tracked_id t)"
    by (simp add: tracked_ok_def)
  then have "appeared_in_a_row cfg conf (frames @ [fr]) (tracked_id t)"
    by (rule appeared_in_a_row_snoc)
  with Confirmed show ?thesis
    by (simp add: tracked_ok_def seen_again_def tracked_id_def)
next
  case Pending
  let ?t' = "seen_again cfg conf fid t r"
  from ok Pending have run: "0 < seen_run t" "seen_run t \<le> length frames"
    and old: "chain (tracked_box t) (recent_boxes (seen_run t) frames)"
    by (simp_all add: tracked_ok_def)
  have box: "tracked_box ?t' = region_box r"
    by (simp add: tracked_box_def seen_again_def)
  from r have here: "region_box r \<in> set (frame_boxes fr)"
    by (simp add: frame_boxes_def)
  obtain bs older where recent: "recent_boxes (seen_run t) frames = bs # older"
    using recent_boxes_nonempty [OF run] by blast
  have "chain (region_box r) (frame_boxes fr # bs # older)"
    using here above_min_overlapping [OF near] old [unfolded recent]
    by (rule chain_extend)
  then have longer: "chain (tracked_box ?t') (recent_boxes (Suc (seen_run t)) (frames @ [fr]))"
    by (simp add: box recent_boxes_snoc recent)
  show ?thesis
  proof (cases "confirmFrameCount cfg \<le> seen_run t + 1")
    case True
    have "chain (tracked_box ?t')
            (take (confirmFrameCount cfg) (recent_boxes (Suc (seen_run t)) (frames @ [fr])))"
      using longer by (rule chain_take)
    then have "chain (tracked_box ?t') (recent_boxes (confirmFrameCount cfg) (frames @ [fr]))"
      using True by (simp add: recent_boxes_take)
    moreover have "confirmFrameCount cfg \<le> length (frames @ [fr])"
      using True run(2) by simp
    ultimately have "appeared_in_a_row cfg conf (frames @ [fr]) (tracked_id ?t')"
      unfolding appeared_in_a_row_def using mem
      by (intro exI [of _ "length (frames @ [fr])"] exI [of _ ?t']) simp
    with True Pending show ?thesis
      by (simp add: tracked_ok_def seen_again_def tracked_id_def)
  next
    case False
    have "phase ?t' = Pending" "missed_run ?t' = 0" "seen_run ?t' = Suc (seen_run t)"
      using False Pending by (simp_all add: seen_again_def)
    with longer run(2) show ?thesis
      by (simp add: tracked_ok_def)
  qed
qed

lemma state_ok_step:
  fixes fr :: "nat \<times> 'c CandidateRegion list"
  assumes inv: "state_ok cfg conf frames"
  shows "state_ok cfg conf (frames @ [fr])"
proof -
  define s where "s = aggregate_all cfg conf frames"
  define s' where "s' = aggregate_all cfg conf (frames @ [fr])"
  obtain fid rs where fr: "fr = (fid, rs)"
    by (cases fr) auto
  define ts' where "ts' = fst (match_all cfg conf fid (tracked s) rs)"
  define rest where "rest = snd (match_all cfg conf fid (tracked s) rs)"
  define fresh where "fresh = new_pending conf fid (next_defect_id s) rest"
  have s': "s' = aggregate cfg conf s fr"
    by (simp add: s'_def s_def aggregate_all_snoc)
  have tracked': "tracked s' = ts' @ fresh"
    and next': "next_defect_id s' = next_defect_id s + length rest"
    by (simp_all add: s' aggregate_def fr ts'_def rest_def fresh_def case_prod_beta)
  from inv have dist: "distinct (map tracked_id (tracked s))"
    and below: "\<forall>t \<in> set (tracked s). tracked_id t < next_defect_id s"
    and ok: "\<forall>t \<in> set (tracked s). tracked_ok cfg conf frames t"
    by (auto simp: state_ok_def s_def)
  have ids_old: "set (map tracked_id ts') \<subseteq> set (map tracked_id (tracked s))"
    unfolding ts'_def by (rule match_all_ids)
  have ids_new: "map tracked_id fresh = [next_defect_id s ..< next_defect_id s + length rest]"
    unfolding fresh_def by (rule new_pending_ids)
  have dist_old: "distinct (map tracked_id ts')"
    unfolding ts'_def using dist by (rule match_all_distinct)
  have old_below: "\<forall>i \<in> set (map tracked_id ts'). i < next_defect_id s"
    using ids_old below by auto
  have dist': "distinct (map tracked_id (tracked s'))"
    using dist_old ids_new old_below by (auto simp: tracked')
  have below': "\<forall>t \<in> set (tracked s'). tracked_id t < next_defect_id s'"
  proof
    fix t assume "t \<in> set (tracked s')"
    then have "tracked_id t \<in> set (map tracked_id ts') \<or> tracked_id t \<in> set (map tracked_id fresh)"
      by (auto simp: tracked')
    then show "tracked_id t < next_defect_id s'"
      using old_below by (auto simp: ids_new next')
  qed
  have ok': "tracked_ok cfg conf (frames @ [fr]) t'" if mem: "t' \<in> set (tracked s')" for t'
  proof (cases "t' \<in> set ts'")
    case True
    then obtain t where t: "t \<in> set (tracked s)"
      and how: "t' \<in> set (not_seen cfg t) \<or>
        (phase t \<noteq> Retired \<and>
         (\<exists>r \<in> set rs. above_min cfg (tracked_box t) (region_box r) \<and>
            t' = seen_again cfg conf fid t r))"
      using match_all_elem [of t' cfg conf fid "tracked s" rs] by (auto simp: ts'_def)
    from ok t have okt: "tracked_ok cfg conf frames t" by blast
    from how show ?thesis
    proof
      assume "t' \<in> set (not_seen cfg t)"
      with okt show ?thesis by (rule tracked_ok_not_seen)
    next
      assume "phase t \<noteq> Retired \<and>
        (\<exists>r \<in> set rs. above_min cfg (tracked_box t) (region_box r) \<and>
           t' = seen_again cfg conf fid t r)"
      then obtain r where live: "phase t \<noteq> Retired" and r: "r \<in> set (snd fr)"
        and near: "above_min cfg (tracked_box t) (region_box r)"
        and t': "t' = seen_again cfg conf fid t r"
        by (auto simp: fr)
      from mem have "seen_again cfg conf fid t r \<in>
          set (tracked (aggregate_all cfg conf (frames @ [fr])))"
        by (simp add: t' s'_def)
      with okt live r near show ?thesis
        unfolding t' by (rule tracked_ok_seen_again)
    qed
  next
    case False
    with mem have new: "t' \<in> set fresh"
      by (simp add: tracked')
    then have fields: "phase t' = Pending" "seen_run t' = 1" "missed_run t' = 0"
      and box: "tracked_box t' \<in> region_box ` set rest"
      using new_pending_elem [of t' conf fid "next_defect_id s" rest]
      by (simp_all add: fresh_def)
    have "set rest \<subseteq> set rs"
      unfolding rest_def by (rule match_all_rest)
    with box have "tracked_box t' \<in> set (frame_boxes fr)"
      by (auto simp: frame_boxes_def fr)
    then have "chain (tracked_box t') (recent_boxes (Suc 0) (frames @ [fr]))"
      by (simp add: recent_boxes_snoc recent_boxes_def)
    with fields show ?thesis
      by (simp add: tracked_ok_def)
  qed
  show ?thesis
    using dist' below' ok' by (simp add: state_ok_def s'_def)
qed

lemma state_ok_aggregate_all: "state_ok cfg conf frames"
proof (induction frames rule: rev_induct)
  case Nil
  show ?case by (simp add: state_ok_def aggregate_all_def Aggregator_new_def)
next
  case (snoc fr frames)
  then show ?case by (rule state_ok_step)
qed

text \<open>
  C4, on the aggregator the specification describes. After any list of frames, every
  defect in the result's list is the snapshot of a tracked defect in state
  Confirmed, and no defect in state Pending has the id of a reported one. And a
  defect is confirmed only after its candidate region appeared in N consecutive
  frames at overlapping places: for each reported defect there is a moment, after
  \<open>k\<close> of the frames, at which it was tracked and each of the \<open>confirmFrameCount\<close>
  frames up to the \<open>k\<close>-th had a candidate region among its input regions, the newest
  at the defect's box of that moment and each overlapping the one in the frame
  before.
\<close>

theorem only_confirmed_reported:
  "\<forall>d \<in> set (defects (detection_result fid latency (aggregate_all cfg conf frames))).
     (\<exists>t \<in> set (tracked (aggregate_all cfg conf frames)). defect t = d \<and> phase t = Confirmed) \<and>
     (\<forall>t \<in> set (tracked (aggregate_all cfg conf frames)).
        phase t = Pending \<longrightarrow> defect_id (defect t) \<noteq> defect_id d) \<and>
     (\<exists>k t. confirmFrameCount cfg \<le> k \<and> k \<le> length frames \<and>
        t \<in> set (tracked (aggregate_all cfg conf (take k frames))) \<and>
        defect_id (defect t) = defect_id d \<and>
        chain (bounding_box (defect t))
          (take (confirmFrameCount cfg) (rev (map frame_boxes (take k frames)))))"
proof
  let ?s = "aggregate_all cfg conf frames"
  fix d assume "d \<in> set (defects (detection_result fid latency ?s))"
  then obtain t where t: "t \<in> set (tracked ?s)" and d: "defect t = d"
    and conf: "phase t = Confirmed"
    by (auto simp: detection_result_def report_def)
  have inv: "state_ok cfg conf frames"
    by (rule state_ok_aggregate_all)
  then have dist: "distinct (map tracked_id (tracked ?s))"
    and okt: "tracked_ok cfg conf frames t"
    using t by (auto simp: state_ok_def)
  have first: "\<exists>t \<in> set (tracked ?s). defect t = d \<and> phase t = Confirmed"
    using t d conf by blast
  have second: "\<forall>u \<in> set (tracked ?s). phase u = Pending \<longrightarrow> defect_id (defect u) \<noteq> defect_id d"
  proof (intro ballI impI notI)
    fix u assume u: "u \<in> set (tracked ?s)" and pend: "phase u = Pending"
      and same: "defect_id (defect u) = defect_id d"
    then have "tracked_id u = tracked_id t"
      by (simp add: tracked_id_def d)
    with dist u t have "u = t"
      by (meson distinct_map inj_onD)
    with pend conf show False by simp
  qed
  from okt conf have "appeared_in_a_row cfg conf frames (defect_id d)"
    by (simp add: tracked_ok_def tracked_id_def d)
  then have third: "\<exists>k t. confirmFrameCount cfg \<le> k \<and> k \<le> length frames \<and>
        t \<in> set (tracked (aggregate_all cfg conf (take k frames))) \<and>
        defect_id (defect t) = defect_id d \<and>
        chain (bounding_box (defect t))
          (take (confirmFrameCount cfg) (rev (map frame_boxes (take k frames))))"
    by (simp add: appeared_in_a_row_def tracked_id_def tracked_box_def recent_boxes_def)
  from first second third
  show "(\<exists>t \<in> set (tracked ?s). defect t = d \<and> phase t = Confirmed) \<and>
     (\<forall>t \<in> set (tracked ?s). phase t = Pending \<longrightarrow> defect_id (defect t) \<noteq> defect_id d) \<and>
     (\<exists>k t. confirmFrameCount cfg \<le> k \<and> k \<le> length frames \<and>
        t \<in> set (tracked (aggregate_all cfg conf (take k frames))) \<and>
        defect_id (defect t) = defect_id d \<and>
        chain (bounding_box (defect t))
          (take (confirmFrameCount cfg) (rev (map frame_boxes (take k frames)))))"
    by blast
qed

text \<open>
  Scenario 2 of the specification: a 10 by 10 region at (50, 50) in three consecutive
  frames, with N = 3. Nothing is reported after two frames; after the third the one
  defect is reported, and the three frames have the region in a row. The same region
  in frames 1, 3 and 5 only, with empty frames between, is never reported.
\<close>

definition three_in_a_row :: AggregatorConfig where
  "three_in_a_row = \<lparr>confirmFrameCount = 3, retireFrameCount = 2, minOverlapPercent = 50\<rparr>"

definition blob_box :: BoundingBox where
  "blob_box = \<lparr>box_x = 50, box_y = 50, box_width = 10, box_height = 10\<rparr>"

definition blob :: "nat CandidateRegion" where
  "blob = \<lparr>label_id = 1, region_box = blob_box, pixel_area = 100, mean_deviation = 7\<rparr>"

definition blob_defect :: "nat Defect" where
  "blob_defect =
     \<lparr>defect_id = 0, bounding_box = blob_box, area = 100, confidence = 7,
      first_seen_frame = 1, last_seen_frame = 3\<rparr>"

definition blob_frames :: "(nat \<times> nat CandidateRegion list) list" where
  "blob_frames = [(1, [blob]), (2, [blob]), (3, [blob])]"

definition gap_frames :: "(nat \<times> nat CandidateRegion list) list" where
  "gap_frames = [(1, [blob]), (2, []), (3, [blob]), (4, []), (5, [blob])]"

theorem only_confirmed_reported_witness:
  "report (aggregate_all three_in_a_row (\<lambda>a m. m) (butlast blob_frames)) = [] \<and>
   defects (detection_result 3 12 (aggregate_all three_in_a_row (\<lambda>a m. m) blob_frames)) =
     [blob_defect] \<and>
   chain blob_box (take 3 (rev (map frame_boxes blob_frames))) \<and>
   report (aggregate_all three_in_a_row (\<lambda>a m. m) gap_frames) = [] \<and>
   (\<exists>k t. 3 \<le> k \<and> k \<le> length blob_frames \<and>
      t \<in> set (tracked (aggregate_all three_in_a_row (\<lambda>a m. m) (take k blob_frames))) \<and>
      defect_id (defect t) = 0 \<and>
      chain (bounding_box (defect t)) (take 3 (rev (map frame_boxes (take k blob_frames)))))"
proof -
  have two: "report (aggregate_all three_in_a_row (\<lambda>a m. m) (butlast blob_frames)) = []"
    by code_simp
  have three:
    "defects (detection_result 3 12 (aggregate_all three_in_a_row (\<lambda>a m. m) blob_frames)) =
       [blob_defect]"
    by code_simp
  have row: "chain blob_box (take 3 (rev (map frame_boxes blob_frames)))"
    by code_simp
  have gap: "report (aggregate_all three_in_a_row (\<lambda>a m. m) gap_frames) = []"
    by code_simp
  from only_confirmed_reported [of 3 12 three_in_a_row "\<lambda>a m. m" blob_frames] three
  have "\<exists>k t. confirmFrameCount three_in_a_row \<le> k \<and> k \<le> length blob_frames \<and>
      t \<in> set (tracked (aggregate_all three_in_a_row (\<lambda>a m. m) (take k blob_frames))) \<and>
      defect_id (defect t) = defect_id blob_defect \<and>
      chain (bounding_box (defect t))
        (take (confirmFrameCount three_in_a_row) (rev (map frame_boxes (take k blob_frames))))"
    by simp
  then have "\<exists>k t. 3 \<le> k \<and> k \<le> length blob_frames \<and>
      t \<in> set (tracked (aggregate_all three_in_a_row (\<lambda>a m. m) (take k blob_frames))) \<and>
      defect_id (defect t) = 0 \<and>
      chain (bounding_box (defect t)) (take 3 (rev (map frame_boxes (take k blob_frames))))"
    by (simp add: blob_defect_def three_in_a_row_def)
  with two three row gap show ?thesis by blast
qed

end
